theory Spec2Isabelle
  imports Main "HOL-Library.Word"
begin

unbundle bit_operations_syntax

section \<open>Data model of rbtree.h and rbtree.c\<close>

text \<open>
  A pointer is its address; address 0 is the C null pointer. Keys are \<open>void *\<close>
  values and are never dereferenced by the library, so a key is an address too.
\<close>

type_synonym ptr = nat

abbreviation NULL :: ptr where
  "NULL \<equiv> 0"

text \<open>
  \<open>color_t\<close> is an enum with \<open>RED = 1\<close> and \<open>BLACK\<close> following it. It is held in
  a 32-bit cell, so the \<open>-1\<close> that \<open>rb_get_uncle_color\<close> returns is the all-ones word.
\<close>

type_synonym color_t = "32 word"

definition RED :: color_t where
  "RED = 1"

definition BLACK :: color_t where
  "BLACK = 2"

text \<open>\<open>struct node_t\<close>, field by field.\<close>

record node_t =
  key :: ptr
  parent :: ptr
  left :: ptr
  right :: ptr
  color :: color_t

text \<open>The node store: the nodes that \<open>malloc\<close> has handed out, by address.\<close>

type_synonym heap = "ptr \<Rightarrow> node_t option"

text \<open>
  Two ways in which a call does not return to its caller: a failed \<open>assert\<close>
  (the program is aborted; the source does not define \<open>NDEBUG\<close>, so assertions
  are compiled in), and a read or write through a null or dangling node pointer
  (undefined behaviour in C, taken here as a crash).
\<close>

datatype fault = AssertionFailed | InvalidDeref

definition deref :: "heap \<Rightarrow> ptr \<Rightarrow> fault + node_t" where
  "deref h p =
     (if p = NULL then Inl InvalidDeref
      else case h p of None \<Rightarrow> Inl InvalidDeref | Some n \<Rightarrow> Inr n)"

definition store_parent :: "heap \<Rightarrow> ptr \<Rightarrow> ptr \<Rightarrow> fault + heap" where
  "store_parent h p v =
     (case deref h p of Inl e \<Rightarrow> Inl e | Inr n \<Rightarrow> Inr (h(p \<mapsto> n\<lparr>parent := v\<rparr>)))"

definition store_left :: "heap \<Rightarrow> ptr \<Rightarrow> ptr \<Rightarrow> fault + heap" where
  "store_left h p v =
     (case deref h p of Inl e \<Rightarrow> Inl e | Inr n \<Rightarrow> Inr (h(p \<mapsto> n\<lparr>left := v\<rparr>)))"

definition store_right :: "heap \<Rightarrow> ptr \<Rightarrow> ptr \<Rightarrow> fault + heap" where
  "store_right h p v =
     (case deref h p of Inl e \<Rightarrow> Inl e | Inr n \<Rightarrow> Inr (h(p \<mapsto> n\<lparr>right := v\<rparr>)))"

definition store_color :: "heap \<Rightarrow> ptr \<Rightarrow> color_t \<Rightarrow> fault + heap" where
  "store_color h p v =
     (case deref h p of Inl e \<Rightarrow> Inl e | Inr n \<Rightarrow> Inr (h(p \<mapsto> n\<lparr>color := v\<rparr>)))"

text \<open>The violation flags of \<open>rb_violation_t\<close>; \<open>rb_validation_t\<close> is \<open>uint32_t\<close>.\<close>

type_synonym rb_validation_t = "32 word"

definition RB_VALID :: rb_validation_t where
  "RB_VALID = 0x00"

definition RB_INVALID_COLOR :: rb_validation_t where
  "RB_INVALID_COLOR = 0x01"

definition RB_RED_ROOT :: rb_validation_t where
  "RB_RED_ROOT = 0x02"

definition RB_NULL_NOT_BLACK :: rb_validation_t where
  "RB_NULL_NOT_BLACK = 0x04"

definition RB_RED_CHILD_OF_RED :: rb_validation_t where
  "RB_RED_CHILD_OF_RED = 0x08"

definition RB_UNEQUAL_BLACK_PATHS :: rb_validation_t where
  "RB_UNEQUAL_BLACK_PATHS = 0x10"

section \<open>Node creation\<close>

text \<open>
  \<open>create_node\<close>. The allocator is outside the library: \<open>m\<close> is the pointer that
  \<open>malloc\<close> returns when it is called (\<open>NULL\<close> when memory is exhausted) and \<open>c0\<close>
  is whatever the fresh block holds where the colour will be, since the function
  leaves \<open>color\<close> unset.
\<close>

definition create_node :: "ptr \<Rightarrow> color_t \<Rightarrow> ptr \<Rightarrow> heap \<Rightarrow> ptr \<times> heap" where
  "create_node m c0 val h =
     (if val = NULL then (NULL, h)
      else if m = NULL then (NULL, h)
      else (m, h(m \<mapsto> \<lparr>key = val, parent = NULL, left = NULL, right = NULL, color = c0\<rparr>)))"

section \<open>Plain binary-search-tree insertion\<close>

text \<open>
  The \<open>while\<close> loop of \<open>rb_insert_node\<close>. It ends either at the \<open>return\<close> inside
  the loop (the keys are neither smaller nor greater) or by leaving the loop with the last
  node visited in \<open>parent\<close>. Each iteration uses one unit of fuel; \<open>None\<close> is a
  loop that is still running when the fuel is spent.
\<close>

datatype descent = Returned | Left_loop ptr

fun rb_insert_node_loop ::
  "nat \<Rightarrow> heap \<Rightarrow> ptr \<Rightarrow> ptr \<Rightarrow> ptr \<Rightarrow> (fault + descent) option" where
  "rb_insert_node_loop 0 h newnode current parent' = None"
| "rb_insert_node_loop (Suc fuel) h newnode current parent' =
     (if current = NULL then Some (Inr (Left_loop parent'))
      else case deref h newnode of Inl e \<Rightarrow> Some (Inl e) | Inr nn \<Rightarrow>
           case deref h current of Inl e \<Rightarrow> Some (Inl e) | Inr cn \<Rightarrow>
             if key nn < key cn then rb_insert_node_loop fuel h newnode (left cn) current
             else if key nn > key cn then rb_insert_node_loop fuel h newnode (right cn) current
             else Some (Inr Returned))"

definition rb_insert_node :: "nat \<Rightarrow> heap \<Rightarrow> ptr \<Rightarrow> ptr \<Rightarrow> (fault + heap) option" where
  "rb_insert_node fuel h root newnode =
     (case rb_insert_node_loop fuel h newnode root NULL of
        None \<Rightarrow> None
      | Some (Inl e) \<Rightarrow> Some (Inl e)
      | Some (Inr Returned) \<Rightarrow> Some (Inr h)
      | Some (Inr (Left_loop parent')) \<Rightarrow>
          Some (case store_parent h newnode parent' of Inl e \<Rightarrow> Inl e | Inr h1 \<Rightarrow>
                case deref h1 newnode of Inl e \<Rightarrow> Inl e | Inr nn \<Rightarrow>
                case deref h1 parent' of Inl e \<Rightarrow> Inl e | Inr pn \<Rightarrow>
                case (if key nn < key pn then store_left h1 parent' newnode
                      else store_right h1 parent' newnode) of Inl e \<Rightarrow> Inl e | Inr h2 \<Rightarrow>
                store_color h2 newnode RED))"

section \<open>The validator\<close>

text \<open>
  \<open>rb_get_black_height\<close>: walks the left spine while the current node has a left
  child, counting the nodes it leaves that are not red.
\<close>

fun rb_get_black_height_loop :: "nat \<Rightarrow> heap \<Rightarrow> ptr \<Rightarrow> int \<Rightarrow> (fault + int) option" where
  "rb_get_black_height_loop 0 h curr' black_height = None"
| "rb_get_black_height_loop (Suc fuel) h curr' black_height =
     (case deref h curr' of Inl e \<Rightarrow> Some (Inl e) | Inr cn \<Rightarrow>
        if left cn \<noteq> NULL
        then rb_get_black_height_loop fuel h (left cn)
               (if color cn \<noteq> RED then black_height + 1 else black_height)
        else Some (Inr black_height))"

definition rb_get_black_height :: "nat \<Rightarrow> heap \<Rightarrow> ptr \<Rightarrow> (fault + int) option" where
  "rb_get_black_height fuel h root = rb_get_black_height_loop fuel h root 0"

text \<open>
  The memory that the recursive walk works on: the node store and the two cells
  it reaches through its pointer arguments, \<open>*violations\<close> and \<open>*black_h\<close>.
  The budget is a C \<open>int\<close> that moves by one per node of a path; it is an
  unbounded integer here, which agrees with the C value on every tree less than
  \<open>2^31\<close> nodes deep.
\<close>

record vstate =
  mem :: heap
  violations :: rb_validation_t
  black_h :: int

definition flag :: "rb_validation_t \<Rightarrow> vstate \<Rightarrow> vstate" where
  \<comment> \<open>\<open>*violations &= ~RB_VALID; *violations |= f;\<close>\<close>
  "flag f s = s\<lparr>violations := (violations s AND NOT RB_VALID) OR f\<rparr>"

definition child_is_red :: "heap \<Rightarrow> ptr \<Rightarrow> fault + bool" where
  \<comment> \<open>\<open>c && IS_RED(c)\<close>\<close>
  "child_is_red h c =
     (if c = NULL then Inr False
      else case deref h c of Inl e \<Rightarrow> Inl e | Inr n \<Rightarrow> Inr (color n = RED))"

definition red_child_check :: "node_t \<Rightarrow> vstate \<Rightarrow> fault + vstate" where
  \<comment> \<open>the \<open>if (IS_RED(root)) { ... }\<close> block of the walk\<close>
  "red_child_check n s =
     (if color n = RED then
        (case child_is_red (mem s) (left n) of
           Inl e \<Rightarrow> Inl e
         | Inr True \<Rightarrow> Inr (flag RB_RED_CHILD_OF_RED s)
         | Inr False \<Rightarrow>
             (case child_is_red (mem s) (right n) of
                Inl e \<Rightarrow> Inl e
              | Inr True \<Rightarrow> Inr (flag RB_RED_CHILD_OF_RED s)
              | Inr False \<Rightarrow> Inr s))
      else Inr s)"

text \<open>
  \<open>rb_validate_tree_recursive\<close>. One unit of fuel per level of recursion; \<open>None\<close>
  is a recursion deeper than the fuel.
\<close>

fun rb_validate_tree_recursive :: "nat \<Rightarrow> ptr \<Rightarrow> vstate \<Rightarrow> (fault + vstate) option" where
  "rb_validate_tree_recursive 0 root s = None"
| "rb_validate_tree_recursive (Suc fuel) root s =
     (if root = NULL then
        Some (Inr (if black_h s \<noteq> 0 then flag RB_UNEQUAL_BLACK_PATHS s else s))
      else case deref (mem s) root of Inl e \<Rightarrow> Some (Inl e) | Inr n \<Rightarrow>
        let s1 = (if color n \<noteq> RED \<and> color n \<noteq> BLACK then flag RB_INVALID_COLOR s else s);
            s2 = (if color n = BLACK then s1\<lparr>black_h := black_h s1 - 1\<rparr> else s1)
        in case red_child_check n s2 of Inl e \<Rightarrow> Some (Inl e) | Inr s3 \<Rightarrow>
           let current_black_h = black_h s3
           in case rb_validate_tree_recursive fuel (left n) s3 of
                None \<Rightarrow> None
              | Some (Inl e) \<Rightarrow> Some (Inl e)
              | Some (Inr s4) \<Rightarrow>
                  rb_validate_tree_recursive fuel (right n) (s4\<lparr>black_h := current_black_h\<rparr>))"

text \<open>
  \<open>rb_validate_tree\<close>: clears \<open>*violations\<close>, accepts the empty tree, aborts on a
  root that has a parent, takes the budget from \<open>rb_get_black_height\<close>, flags a
  red root and runs the walk. It returns the node store with \<open>*violations\<close>.
\<close>

definition rb_validate_tree :: "nat \<Rightarrow> heap \<Rightarrow> ptr \<Rightarrow> (fault + heap \<times> rb_validation_t) option" where
  "rb_validate_tree fuel h root =
     (if root = NULL then Some (Inr (h, RB_VALID))
      else case deref h root of Inl e \<Rightarrow> Some (Inl e) | Inr rn \<Rightarrow>
        if parent rn \<noteq> NULL then Some (Inl AssertionFailed)
        else case rb_get_black_height fuel h root of
               None \<Rightarrow> None
             | Some (Inl e) \<Rightarrow> Some (Inl e)
             | Some (Inr black_height) \<Rightarrow>
                 let s0 = \<lparr>mem = h, violations = RB_VALID, black_h = black_height\<rparr>;
                     s1 = (if color rn = RED then flag RB_RED_ROOT s0 else s0)
                 in case rb_validate_tree_recursive fuel root s1 of
                      None \<Rightarrow> None
                    | Some (Inl e) \<Rightarrow> Some (Inl e)
                    | Some (Inr s2) \<Rightarrow> Some (Inr (mem s2, violations s2)))"

section \<open>The public operations\<close>

text \<open>
  \<open>insert_node\<close>. The result is the node store, the new value of \<open>*root\<close> and the
  lines printed. A null \<open>newnode\<close> fails the \<open>assert\<close>. The fuel bounds the
  descent, the walk down the left spine and the depth of the recursive walk, each
  on its own.
\<close>

definition report :: "rb_validation_t \<Rightarrow> string list" where
  "report v =
     (if v = RB_VALID then [''tree is a valid rb tree'']
      else [''tree validation failed.'']
         @ (if v AND RB_RED_ROOT \<noteq> 0 then [''- root is red (violates property 2)''] else [])
         @ (if v AND RB_RED_CHILD_OF_RED \<noteq> 0
            then [''- found red node with red child (violates properties 4/7)''] else [])
         @ (if v AND RB_UNEQUAL_BLACK_PATHS \<noteq> 0
            then [''- paths have different number of black nodes (violates property 5)''] else [])
         @ (if v AND RB_INVALID_COLOR \<noteq> 0
            then [''- found node with invalid color (violates property 1)''] else [])
         @ (if v AND RB_NULL_NOT_BLACK \<noteq> 0
            then [''- found null leaf that isn't black (violates property 3)''] else []))"

definition insert_node ::
  "nat \<Rightarrow> ptr \<Rightarrow> color_t \<Rightarrow> heap \<Rightarrow> ptr \<Rightarrow> ptr \<Rightarrow> (fault + heap \<times> ptr \<times> string list) option" where
  "insert_node fuel m c0 h root val =
     (case create_node m c0 val h of (newnode, h1) \<Rightarrow>
        if newnode = NULL then Some (Inl AssertionFailed)
        else if root = NULL then
          Some (case store_color h1 newnode BLACK of
                  Inl e \<Rightarrow> Inl e
                | Inr h2 \<Rightarrow> Inr (h2, newnode, []))
        else case rb_insert_node fuel h1 root newnode of
               None \<Rightarrow> None
             | Some (Inl e) \<Rightarrow> Some (Inl e)
             | Some (Inr h2) \<Rightarrow>
                 (case rb_validate_tree fuel h2 root of
                    None \<Rightarrow> None
                  | Some (Inl e) \<Rightarrow> Some (Inl e)
                  | Some (Inr (h3, v)) \<Rightarrow> Some (Inr (h3, root, report v))))"

text \<open>
  \<open>delete_node\<close> and \<open>search\<close> have empty bodies and return \<open>void\<close>: a
  call hands nothing back, and all it could do is change the store. Each is the
  store after the call as a function of the store before it.
\<close>

definition delete_node :: "heap \<Rightarrow> ptr \<Rightarrow> ptr \<Rightarrow> heap" where
  "delete_node h root val = h"

definition search :: "heap \<Rightarrow> ptr \<Rightarrow> ptr \<Rightarrow> heap" where
  "search h n query_key = h"

section \<open>The balancer\<close>

text \<open>
  \<open>rb_get_uncle_color\<close> returns \<open>-1\<close> when the node has no parent or no
  grandparent. \<open>rb_color_flip\<close> and \<open>rb_rotate\<close> have empty bodies.
  \<open>rb_rebalance\<close> is defined in the source and called from nowhere.
\<close>

definition rb_get_uncle_color :: "heap \<Rightarrow> ptr \<Rightarrow> fault + color_t" where
  "rb_get_uncle_color h n =
     (case deref h n of Inl e \<Rightarrow> Inl e | Inr nn \<Rightarrow>
      if parent nn = NULL then Inr (- 1)
      else case deref h (parent nn) of Inl e \<Rightarrow> Inl e | Inr pn \<Rightarrow>
      if parent pn = NULL then Inr (- 1)
      else let grandparent = parent pn
      in case deref h grandparent of Inl e \<Rightarrow> Inl e | Inr gn \<Rightarrow>
      if left gn = parent nn then
        (if right gn = NULL then Inr BLACK
         else case deref h (right gn) of Inl e \<Rightarrow> Inl e | Inr un \<Rightarrow> Inr (color un))
      else
        (if left gn = NULL then Inr BLACK
         else case deref h (left gn) of Inl e \<Rightarrow> Inl e | Inr un \<Rightarrow> Inr (color un)))"

datatype rotation_t = LEFT | RIGHT

definition rb_color_flip :: "heap \<Rightarrow> ptr \<Rightarrow> heap" where
  "rb_color_flip h root = h"

definition rb_rotate :: "heap \<Rightarrow> ptr \<Rightarrow> rotation_t \<Rightarrow> heap" where
  "rb_rotate h node dir = h"

definition rb_rebalance :: "heap \<Rightarrow> ptr \<Rightarrow> fault + heap" where
  "rb_rebalance h node =
     (case rb_get_uncle_color h node of Inl e \<Rightarrow> Inl e | Inr c \<Rightarrow>
      if c = - 1 then Inr h
      else if c = RED then Inr (rb_color_flip h node)
      else case deref h node of Inl e \<Rightarrow> Inl e | Inr nn \<Rightarrow> Inr (rb_rotate h (parent nn) LEFT))"

section \<open>Trees in the node store\<close>

text \<open>
  A tree value records, for every node reachable from a root pointer, its address
  and its contents. \<open>is_tree h par p t\<close> says that the pointer \<open>p\<close> leads in the store
  \<open>h\<close> to exactly the nodes of \<open>t\<close>, linked as in \<open>t\<close>, with parent pointers that lead
  back (\<open>par\<close> for the topmost node). An absent child is the null pointer.
\<close>

datatype tree = Leaf | Node tree ptr node_t tree

fun is_tree :: "heap \<Rightarrow> ptr \<Rightarrow> ptr \<Rightarrow> tree \<Rightarrow> bool" where
  "is_tree h par p Leaf = (p = NULL)"
| "is_tree h par p (Node l a n r) =
     (p = a \<and> a \<noteq> NULL \<and> h a = Some n \<and> parent n = par \<and>
      is_tree h a (left n) l \<and> is_tree h a (right n) r)"

fun depth :: "tree \<Rightarrow> nat" where
  "depth Leaf = 0"
| "depth (Node l a n r) = Suc (max (depth l) (depth r))"

fun keys_of :: "tree \<Rightarrow> ptr list" where
  "keys_of Leaf = []"
| "keys_of (Node l a n r) = keys_of l @ key n # keys_of r"

text \<open>The search-tree order on keys, which are compared as addresses.\<close>

fun bst :: "tree \<Rightarrow> bool" where
  "bst Leaf = True"
| "bst (Node l a n r) =
     (bst l \<and> bst r \<and>
      list_all (\<lambda>k. k < key n) (keys_of l) \<and> list_all (\<lambda>k. key n < k) (keys_of r))"

text \<open>
  The number of BLACK nodes on each path from the root to an absent child, path by
  path from left to right.
\<close>

fun path_blacks :: "tree \<Rightarrow> nat list" where
  "path_blacks Leaf = [0]"
| "path_blacks (Node l a n r) =
     map (\<lambda>c. (if color n = BLACK then 1 else 0) + c) (path_blacks l @ path_blacks r)"

text \<open>A RED node with a RED child somewhere in the tree.\<close>

fun root_is_red :: "tree \<Rightarrow> bool" where
  "root_is_red Leaf = False"
| "root_is_red (Node l a n r) = (color n = RED)"

fun red_red :: "tree \<Rightarrow> bool" where
  "red_red Leaf = False"
| "red_red (Node l a n r) =
     (color n = RED \<and> (root_is_red l \<or> root_is_red r) \<or> red_red l \<or> red_red r)"

section \<open>Where a new node is attached\<close>

text \<open>
  The place that \<open>rb_insert_node\<close> picks for the new node: the outcome of its
  loop together with the test \<open>newnode->key < parent->key\<close> that chooses the side.
\<close>

datatype side = LeftSide | RightSide

datatype slot = Existing | AtRoot | Attach ptr side

definition slot_of :: "heap \<Rightarrow> ptr \<Rightarrow> (fault + descent) option \<Rightarrow> (fault + slot) option" where
  "slot_of h newnode r =
     (case r of
        None \<Rightarrow> None
      | Some (Inl e) \<Rightarrow> Some (Inl e)
      | Some (Inr Returned) \<Rightarrow> Some (Inr Existing)
      | Some (Inr (Left_loop parent')) \<Rightarrow>
          Some (case deref h newnode of Inl e \<Rightarrow> Inl e | Inr nn \<Rightarrow>
                case deref h parent' of Inl e \<Rightarrow> Inl e | Inr pn \<Rightarrow>
                Inr (Attach parent' (if key nn < key pn then LeftSide else RightSide))))"

definition insertion_point :: "nat \<Rightarrow> heap \<Rightarrow> ptr \<Rightarrow> ptr \<Rightarrow> (fault + slot) option" where
  "insertion_point fuel h root newnode =
     slot_of h newnode (rb_insert_node_loop fuel h newnode root NULL)"

text \<open>
  The specification's \<open>locateInsertionPoint\<close>, written from its words: descend from
  the root comparing the key against each node's key with the order the caller
  supplies; stop at the first absent child slot, or at a node with an equal key;
  return the parent to attach to and the side. \<open>via\<close> is the slot through which the
  current position was reached.
\<close>

datatype ordering = LESS | EQUAL | GREATER

fun locateInsertionPoint ::
  "(ptr \<Rightarrow> ptr \<Rightarrow> ordering) \<Rightarrow> nat \<Rightarrow> heap \<Rightarrow> ptr \<Rightarrow> ptr \<Rightarrow> slot \<Rightarrow> (fault + slot) option" where
  "locateInsertionPoint cmp 0 h k current via = None"
| "locateInsertionPoint cmp (Suc fuel) h k current via =
     (if current = NULL then Some (Inr via)
      else case deref h current of Inl e \<Rightarrow> Some (Inl e) | Inr cn \<Rightarrow>
        (case cmp k (key cn) of
           EQUAL \<Rightarrow> Some (Inr Existing)
         | LESS \<Rightarrow> locateInsertionPoint cmp fuel h k (left cn) (Attach current LeftSide)
         | GREATER \<Rightarrow> locateInsertionPoint cmp fuel h k (right cn) (Attach current RightSide)))"

text \<open>Two total orders on keys: by address, and by address downwards.\<close>

definition address_order :: "ptr \<Rightarrow> ptr \<Rightarrow> ordering" where
  "address_order a b = (if a < b then LESS else if a > b then GREATER else EQUAL)"

definition descending_order :: "ptr \<Rightarrow> ptr \<Rightarrow> ordering" where
  "descending_order a b = (if a > b then LESS else if a < b then GREATER else EQUAL)"

section \<open>The stores that inserting 10, 20, 30 builds\<close>

text \<open>
  The three nodes are allocated at the addresses 16, 32 and 48. Nothing is rotated
  or recoloured, so the keys form a chain to the right.
\<close>

definition heap_10 :: heap where
  "heap_10 = [16 \<mapsto> \<lparr>key = 10, parent = NULL, left = NULL, right = NULL, color = BLACK\<rparr>]"

definition heap_10_20 :: heap where
  "heap_10_20 =
     [16 \<mapsto> \<lparr>key = 10, parent = NULL, left = NULL, right = 32, color = BLACK\<rparr>,
      32 \<mapsto> \<lparr>key = 20, parent = 16, left = NULL, right = NULL, color = RED\<rparr>]"

definition heap_10_20_30 :: heap where
  "heap_10_20_30 =
     [16 \<mapsto> \<lparr>key = 10, parent = NULL, left = NULL, right = 32, color = BLACK\<rparr>,
      32 \<mapsto> \<lparr>key = 20, parent = 16, left = NULL, right = 48, color = RED\<rparr>,
      48 \<mapsto> \<lparr>key = 30, parent = 32, left = NULL, right = NULL, color = RED\<rparr>]"

definition tree_10 :: tree where
  "tree_10 =
     Node Leaf 16 \<lparr>key = 10, parent = NULL, left = NULL, right = NULL, color = BLACK\<rparr> Leaf"

definition tree_10_20 :: tree where
  "tree_10_20 =
     Node Leaf 16 \<lparr>key = 10, parent = NULL, left = NULL, right = 32, color = BLACK\<rparr>
       (Node Leaf 32 \<lparr>key = 20, parent = 16, left = NULL, right = NULL, color = RED\<rparr> Leaf)"

definition tree_10_20_30 :: tree where
  "tree_10_20_30 =
     Node Leaf 16 \<lparr>key = 10, parent = NULL, left = NULL, right = 32, color = BLACK\<rparr>
       (Node Leaf 32 \<lparr>key = 20, parent = 16, left = NULL, right = 48, color = RED\<rparr>
          (Node Leaf 48 \<lparr>key = 30, parent = 32, left = NULL, right = NULL, color = RED\<rparr> Leaf))"

text \<open>
  A store with four nodes: 20 (BLACK) at the root, 10 and 30 (RED) below it, and
  5 (RED) below 10.
\<close>

definition heap_20_10_30_5 :: heap where
  "heap_20_10_30_5 =
     [16 \<mapsto> \<lparr>key = 20, parent = NULL, left = 32, right = 48, color = BLACK\<rparr>,
      32 \<mapsto> \<lparr>key = 10, parent = 16, left = 64, right = NULL, color = RED\<rparr>,
      48 \<mapsto> \<lparr>key = 30, parent = 16, left = NULL, right = NULL, color = RED\<rparr>,
      64 \<mapsto> \<lparr>key = 5, parent = 32, left = NULL, right = NULL, color = RED\<rparr>]"

section \<open>Insertion on tree values\<close>

text \<open>
  What \<open>insert_node\<close> does to a tree, told on tree values: \<open>addrs\<close> lists the
  addresses of the nodes, \<open>attach_point\<close> is the node under which a new key is
  linked, and \<open>ins\<close> links a RED node for the key there. \<open>insert_tree\<close> adds the
  two special cases of \<open>insert_node\<close>: the first node of an empty tree is BLACK,
  and a key that is present changes nothing.
\<close>

fun addrs :: "tree \<Rightarrow> ptr list" where
  "addrs Leaf = []"
| "addrs (Node l a n r) = addrs l @ a # addrs r"

fun attach_point :: "ptr \<Rightarrow> ptr \<Rightarrow> tree \<Rightarrow> ptr" where
  "attach_point k q Leaf = q"
| "attach_point k q (Node l a n r) =
     (if k < key n then attach_point k a l
      else if key n < k then attach_point k a r
      else a)"

fun ins :: "ptr \<Rightarrow> ptr \<Rightarrow> ptr \<Rightarrow> tree \<Rightarrow> tree" where
  "ins m k q Leaf =
     Node Leaf m \<lparr>key = k, parent = q, left = NULL, right = NULL, color = RED\<rparr> Leaf"
| "ins m k q (Node l a n r) =
     (if k < key n then Node (ins m k a l) a (if l = Leaf then n\<lparr>left := m\<rparr> else n) r
      else if key n < k then Node l a (if r = Leaf then n\<lparr>right := m\<rparr> else n) (ins m k a r)
      else Node l a n r)"

definition insert_tree :: "ptr \<Rightarrow> ptr \<Rightarrow> tree \<Rightarrow> tree" where
  "insert_tree m k t =
     (case t of
        Leaf \<Rightarrow> Node Leaf m \<lparr>key = k, parent = NULL, left = NULL, right = NULL, color = BLACK\<rparr> Leaf
      | Node l a n r \<Rightarrow> if k \<in> set (keys_of t) then t else ins m k NULL t)"

text \<open>The store \<open>heap_10\<close> with a node for key 20 allocated at 32 and not yet linked.\<close>

definition heap_10_new20 :: heap where
  "heap_10_new20 =
     heap_10(32 \<mapsto> \<lparr>key = 20, parent = NULL, left = NULL, right = NULL, color = 0\<rparr>)"

section \<open>Evaluation on the concrete stores\<close>

lemmas store_defs = deref_def store_parent_def store_left_def store_right_def store_color_def

lemmas validate_defs = rb_validate_tree_def rb_get_black_height_def flag_def
  red_child_check_def child_is_red_def RED_def BLACK_def RB_VALID_def RB_INVALID_COLOR_def
  RB_RED_ROOT_def RB_RED_CHILD_OF_RED_def RB_UNEQUAL_BLACK_PATHS_def RB_NULL_NOT_BLACK_def

lemma is_tree_10: "is_tree heap_10 NULL 16 tree_10"
  by (simp add: heap_10_def tree_10_def)

lemma is_tree_10_20: "is_tree heap_10_20 NULL 16 tree_10_20"
  by (simp add: heap_10_20_def tree_10_20_def)

lemma is_tree_10_20_30: "is_tree heap_10_20_30 NULL 16 tree_10_20_30"
  by (simp add: heap_10_20_30_def tree_10_20_30_def)

lemma insert_10: "insert_node fuel 16 c0 Map.empty NULL 10 = Some (Inr (heap_10, 16, []))"
  by (simp add: insert_node_def create_node_def store_defs heap_10_def)

lemma validate_10:
  "rb_validate_tree 2 heap_10 16 = Some (Inr (heap_10, RB_UNEQUAL_BLACK_PATHS))"
  by (simp add: validate_defs store_defs heap_10_def eval_nat_numeral)

lemma rb_insert_20:
  "rb_insert_node 4
     (heap_10(32 \<mapsto> \<lparr>key = 20, parent = NULL, left = NULL, right = NULL, color = c0\<rparr>)) 16 32 =
   Some (Inr heap_10_20)"
  by (simp add: rb_insert_node_def store_defs heap_10_def heap_10_20_def eval_nat_numeral
      RED_def fun_upd_twist)

lemma validate_10_20:
  "rb_validate_tree 4 heap_10_20 16 = Some (Inr (heap_10_20, RB_UNEQUAL_BLACK_PATHS))"
  by (simp add: validate_defs store_defs heap_10_20_def eval_nat_numeral)

lemma insert_20:
  "insert_node 4 32 c0 heap_10 16 20 =
   Some (Inr (heap_10_20, 16, report RB_UNEQUAL_BLACK_PATHS))"
proof -
  have "create_node 32 c0 20 heap_10 =
        (32, heap_10(32 \<mapsto> \<lparr>key = 20, parent = NULL, left = NULL, right = NULL, color = c0\<rparr>))"
    by (simp add: create_node_def)
  then show ?thesis
    by (simp add: insert_node_def rb_insert_20 validate_10_20)
qed

lemma rb_insert_30:
  "rb_insert_node 4
     (heap_10_20(48 \<mapsto> \<lparr>key = 30, parent = NULL, left = NULL, right = NULL, color = c0\<rparr>)) 16 48 =
   Some (Inr heap_10_20_30)"
  by (simp add: rb_insert_node_def store_defs heap_10_20_def heap_10_20_30_def eval_nat_numeral
      RED_def fun_upd_twist)

lemma validate_10_20_30:
  "rb_validate_tree 4 heap_10_20_30 16 =
   Some (Inr (heap_10_20_30, RB_RED_CHILD_OF_RED OR RB_UNEQUAL_BLACK_PATHS))"
  by (simp add: validate_defs store_defs heap_10_20_30_def eval_nat_numeral)

lemma insert_30:
  "insert_node 4 48 c0 heap_10_20 16 30 =
   Some (Inr (heap_10_20_30, 16, report (RB_RED_CHILD_OF_RED OR RB_UNEQUAL_BLACK_PATHS)))"
proof -
  have "create_node 48 c0 30 heap_10_20 =
        (48, heap_10_20(48 \<mapsto> \<lparr>key = 30, parent = NULL, left = NULL, right = NULL, color = c0\<rparr>))"
    by (simp add: create_node_def)
  then show ?thesis
    by (simp add: insert_node_def rb_insert_30 validate_10_20_30)
qed

lemma report_failed:
  "report (RB_RED_CHILD_OF_RED OR RB_UNEQUAL_BLACK_PATHS) =
     [''tree validation failed.'',
      ''- found red node with red child (violates properties 4/7)'',
      ''- paths have different number of black nodes (violates property 5)'']"
  by (simp add: report_def validate_defs)

lemma insertion_point_20:
  "insertion_point 2 heap_10_new20 16 32 = Some (Inr (Attach 16 RightSide))"
  by (simp add: insertion_point_def slot_of_def deref_def heap_10_new20_def heap_10_def
      eval_nat_numeral)

section \<open>The loops on well-formed trees\<close>

text \<open>
  On a store that holds a tree, every loop and every recursion of the library
  comes to an end within a number of steps bounded by the depth of the tree, and
  no pointer that is followed is null or dangling.
\<close>

lemma deref_is_tree:
  "is_tree h par p (Node l a n r) \<Longrightarrow> deref h p = Inr n"
  by (simp add: deref_def)

lemma child_is_red_is_tree:
  "is_tree h par p t \<Longrightarrow> \<exists>b. child_is_red h p = Inr b"
  by (cases t) (auto simp: child_is_red_def deref_def)

lemma red_child_check_is_tree:
  assumes "is_tree (mem s) par p (Node l a n r)"
  shows "\<exists>v. red_child_check n s = Inr (s\<lparr>violations := v\<rparr>)"
proof -
  from assms have tl: "is_tree (mem s) a (left n) l" and tr: "is_tree (mem s) a (right n) r"
    by simp_all
  obtain bl where bl: "child_is_red (mem s) (left n) = Inr bl"
    using child_is_red_is_tree [OF tl] by blast
  obtain br where br: "child_is_red (mem s) (right n) = Inr br"
    using child_is_red_is_tree [OF tr] by blast
  have same: "s = s\<lparr>violations := violations s\<rparr>" by simp
  show ?thesis
  proof (cases "color n = RED")
    case False
    then have "red_child_check n s = Inr (s\<lparr>violations := violations s\<rparr>)"
      by (simp add: red_child_check_def)
    then show ?thesis by blast
  next
    case True
    show ?thesis
    proof (cases "bl \<or> br")
      case True
      with \<open>color n = RED\<close> bl br
      have "red_child_check n s = Inr (s\<lparr>violations := (violations s AND NOT RB_VALID) OR RB_RED_CHILD_OF_RED\<rparr>)"
        by (cases bl; cases br) (simp_all add: red_child_check_def flag_def)
      then show ?thesis by blast
    next
      case False
      with \<open>color n = RED\<close> bl br
      have "red_child_check n s = Inr (s\<lparr>violations := violations s\<rparr>)"
        by (cases bl; cases br) (simp_all add: red_child_check_def)
      then show ?thesis by blast
    qed
  qed
qed

lemma rb_validate_tree_recursive_returns:
  "is_tree (mem s) par p t \<Longrightarrow> depth t < fuel \<Longrightarrow>
   \<exists>v b. rb_validate_tree_recursive fuel p s = Some (Inr (s\<lparr>violations := v, black_h := b\<rparr>))"
proof (induction t arbitrary: fuel par p s)
  case Leaf
  then obtain f where f: "fuel = Suc f" by (cases fuel) auto
  from Leaf have p: "p = NULL" by simp
  have "rb_validate_tree_recursive fuel p s =
      Some (Inr (s\<lparr>violations := (if black_h s \<noteq> 0 then (violations s AND NOT RB_VALID) OR RB_UNEQUAL_BLACK_PATHS else violations s),
                   black_h := black_h s\<rparr>))"
    by (simp add: f p flag_def)
  then show ?case by blast
next
  case (Node l a n r)
  then obtain f where f: "fuel = Suc f" by (cases fuel) auto
  from Node.prems have pa: "p = a" "a \<noteq> NULL" and d: "deref (mem s) p = Inr n"
    and tl: "is_tree (mem s) a (left n) l" and tr: "is_tree (mem s) a (right n) r"
    by (simp_all add: deref_def)
  from Node.prems f have dl: "depth l < f" and dr: "depth r < f" by auto
  define s1 where "s1 = (if color n \<noteq> RED \<and> color n \<noteq> BLACK then flag RB_INVALID_COLOR s else s)"
  define s2 where "s2 = (if color n = BLACK then s1\<lparr>black_h := black_h s1 - 1\<rparr> else s1)"
  have m2: "mem s2 = mem s" by (simp add: s2_def s1_def flag_def)
  have s2_shape: "\<exists>v b. s2 = s\<lparr>violations := v, black_h := b\<rparr>"
  proof -
    have "s2 = s\<lparr>violations := violations s2, black_h := black_h s2\<rparr>"
      by (simp add: s2_def s1_def flag_def)
    then show ?thesis by blast
  qed
  from Node.prems m2 have "is_tree (mem s2) par p (Node l a n r)" by simp
  from red_child_check_is_tree [OF this]
  obtain v3 where s3: "red_child_check n s2 = Inr (s2\<lparr>violations := v3\<rparr>)" by blast
  define s3 where "s3 = s2\<lparr>violations := v3\<rparr>"
  have m3: "mem s3 = mem s" by (simp add: s3_def m2)
  from Node.IH(1) [of s3 a "left n" f] tl dl m3
  obtain v4 b4 where s4: "rb_validate_tree_recursive f (left n) s3 = Some (Inr (s3\<lparr>violations := v4, black_h := b4\<rparr>))"
    by auto
  define s5 where "s5 = s3\<lparr>violations := v4, black_h := black_h s3\<rparr>"
  have m5: "mem s5 = mem s" by (simp add: s5_def m3)
  from Node.IH(2) [of s5 a "right n" f] tr dr m5
  obtain v6 b6 where s6: "rb_validate_tree_recursive f (right n) s5 = Some (Inr (s5\<lparr>violations := v6, black_h := b6\<rparr>))"
    by auto
  have "rb_validate_tree_recursive fuel p s = Some (Inr (s5\<lparr>violations := v6, black_h := b6\<rparr>))"
    using pa d s3 s4 s6
    by (simp add: f s1_def [symmetric] s2_def [symmetric] s3_def [symmetric] s5_def Let_def)
  moreover have "s5\<lparr>violations := v6, black_h := b6\<rparr> = s\<lparr>violations := v6, black_h := b6\<rparr>"
    using s2_shape by (auto simp: s5_def s3_def)
  ultimately show ?case by auto
qed


lemma rb_get_black_height_loop_returns:
  "is_tree h par p t \<Longrightarrow> p \<noteq> NULL \<Longrightarrow> depth t \<le> fuel \<Longrightarrow>
   \<exists>b. rb_get_black_height_loop fuel h p b0 = Some (Inr b)"
proof (induction t arbitrary: fuel par p b0)
  case Leaf
  then show ?case by simp
next
  case (Node l a n r)
  then obtain f where f: "fuel = Suc f" by (cases fuel) auto
  from Node.prems have d: "deref h p = Inr n" and tl: "is_tree h a (left n) l"
    by (simp_all add: deref_def)
  from Node.prems f have dl: "depth l \<le> f" by auto
  show ?case
  proof (cases "left n = NULL")
    case True
    with d show ?thesis by (simp add: f)
  next
    case False
    from Node.IH(1) [OF tl False dl] d False show ?thesis by (simp add: f)
  qed
qed

lemma rb_validate_tree_returns:
  assumes "is_tree h NULL root t" and "depth t < fuel"
  shows "\<exists>v. rb_validate_tree fuel h root = Some (Inr (h, v))"
proof (cases t)
  case Leaf
  with assms show ?thesis by (simp add: rb_validate_tree_def)
next
  case (Node l a n r)
  with assms have nn: "root \<noteq> NULL" and d: "deref h root = Inr n" and pn: "parent n = NULL"
    by (simp_all add: deref_def)
  from assms have "depth t \<le> fuel" by simp
  from rb_get_black_height_loop_returns [OF assms(1) nn this]
  obtain b where b: "rb_get_black_height fuel h root = Some (Inr b)"
    by (auto simp: rb_get_black_height_def)
  define s0 where "s0 = \<lparr>mem = h, violations = RB_VALID, black_h = b\<rparr>"
  define s1 where "s1 = (if color n = RED then flag RB_RED_ROOT s0 else s0)"
  have m1: "mem s1 = h" by (simp add: s1_def s0_def flag_def)
  with assms have "is_tree (mem s1) NULL root t" by simp
  from rb_validate_tree_recursive_returns [OF this assms(2)]
  obtain v b' where r: "rb_validate_tree_recursive fuel root s1 = Some (Inr (s1\<lparr>violations := v, black_h := b'\<rparr>))"
    by blast
  have "rb_validate_tree fuel h root = Some (Inr (h, v))"
    using nn d pn b r m1
    by (simp add: rb_validate_tree_def s0_def [symmetric] s1_def [symmetric] Let_def)
  then show ?thesis by blast
qed

lemma is_tree_fresh:
  "is_tree h par p t \<Longrightarrow> h m = None \<Longrightarrow> is_tree (h(m \<mapsto> x)) par p t"
  by (induction t arbitrary: par p) auto

lemma rb_insert_node_loop_finds:
  "is_tree h par p t \<Longrightarrow> bst t \<Longrightarrow> k \<in> set (keys_of t) \<Longrightarrow>
   deref h newnode = Inr nn \<Longrightarrow> key nn = k \<Longrightarrow> depth t \<le> fuel \<Longrightarrow>
   rb_insert_node_loop fuel h newnode p par' = Some (Inr Returned)"
proof (induction t arbitrary: fuel par p par')
  case Leaf
  then show ?case by simp
next
  case (Node l a n r)
  then obtain f where f: "fuel = Suc f" by (cases fuel) auto
  from Node.prems have pa: "p \<noteq> NULL" and d: "deref h p = Inr n"
    and tl: "is_tree h a (left n) l" and tr: "is_tree h a (right n) r" and ap: "p = a"
    by (simp_all add: deref_def)
  from Node.prems f have dl: "depth l \<le> f" and dr: "depth r \<le> f" by auto
  from Node.prems have bl: "bst l" and br: "bst r"
    and ltl: "\<forall>x\<in>set (keys_of l). x < key n" and gtr: "\<forall>x\<in>set (keys_of r). key n < x"
    by (simp_all add: list_all_iff)
  consider (lt) "k < key n" | (eq) "k = key n" | (gt) "key n < k" by linarith
  then show ?case
  proof cases
    case lt
    with Node.prems(3) gtr have "k \<in> set (keys_of l)" by auto
    from Node.IH(1) [OF tl bl this Node.prems(4,5) dl, of p]
    show ?thesis using pa d lt Node.prems(4,5) by (simp add: f)
  next
    case eq
    then show ?thesis using pa d Node.prems(4,5) by (simp add: f)
  next
    case gt
    with Node.prems(3) ltl have "k \<in> set (keys_of r)" by auto
    from Node.IH(2) [OF tr br this Node.prems(4,5) dr, of p]
    show ?thesis using pa d gt Node.prems(4,5) by (simp add: f)
  qed
qed

text \<open>The walk never writes to a node, whatever the store holds.\<close>

lemma red_child_check_mem:
  "red_child_check n s = Inr s' \<Longrightarrow> mem s' = mem s"
  by (auto simp: red_child_check_def flag_def split: if_splits sum.splits bool.splits)

lemma rb_validate_tree_recursive_mem:
  "rb_validate_tree_recursive fuel p s = Some (Inr s') \<Longrightarrow> mem s' = mem s"
proof (induction fuel arbitrary: p s s')
  case 0
  then show ?case by simp
next
  case (Suc fuel)
  show ?case
  proof (cases "p = NULL")
    case True
    with Suc.prems show ?thesis by (auto simp: flag_def split: if_splits)
  next
    case False
    with Suc.prems obtain n where n: "deref (mem s) p = Inr n"
      by (auto split: sum.splits)
    define s2 where "s2 =
      (if color n = BLACK
       then (if color n \<noteq> RED \<and> color n \<noteq> BLACK then flag RB_INVALID_COLOR s else s)
              \<lparr>black_h := black_h (if color n \<noteq> RED \<and> color n \<noteq> BLACK
                                   then flag RB_INVALID_COLOR s else s) - 1\<rparr>
       else (if color n \<noteq> RED \<and> color n \<noteq> BLACK then flag RB_INVALID_COLOR s else s))"
    have m2: "mem s2 = mem s" by (simp add: s2_def flag_def)
    from Suc.prems False n obtain s3 s4 where
      s3: "red_child_check n s2 = Inr s3" and
      s4: "rb_validate_tree_recursive fuel (left n) s3 = Some (Inr s4)" and
      s5: "rb_validate_tree_recursive fuel (right n) (s4\<lparr>black_h := black_h s3\<rparr>) = Some (Inr s')"
      by (auto simp: Let_def s2_def split: sum.splits option.splits)
    from Suc.IH [OF s5] have "mem s' = mem s4" by simp
    also from Suc.IH [OF s4] have "\<dots> = mem s3" .
    also from red_child_check_mem [OF s3] have "\<dots> = mem s2" .
    finally show ?thesis using m2 by simp
  qed
qed

lemma rb_validate_tree_mem:
  "rb_validate_tree fuel h root = Some (Inr (h', v)) \<Longrightarrow> h' = h"
  by (auto simp: rb_validate_tree_def Let_def flag_def
      split: if_splits sum.splits option.splits dest!: rb_validate_tree_recursive_mem)

lemma slot_of_loop:
  assumes nn: "deref h newnode = Inr nn"
  shows "current \<noteq> NULL \<and> via = AtRoot \<or>
         (\<exists>pn. deref h parent' = Inr pn \<and>
            via = Attach parent' (if key nn < key pn then LeftSide else RightSide)) \<Longrightarrow>
         slot_of h newnode (rb_insert_node_loop fuel h newnode current parent') =
         locateInsertionPoint address_order fuel h (key nn) current via"
proof (induction fuel arbitrary: current parent' via)
  case 0
  show ?case by (simp add: slot_of_def)
next
  case (Suc fuel)
  show ?case
  proof (cases "current = NULL")
    case True
    with Suc.prems obtain pn where "deref h parent' = Inr pn"
      and "via = Attach parent' (if key nn < key pn then LeftSide else RightSide)"
      by auto
    with True nn show ?thesis by (simp add: slot_of_def)
  next
    case False
    show ?thesis
    proof (cases "deref h current")
      case (Inl e)
      with False nn show ?thesis by (simp add: slot_of_def)
    next
      case (Inr cn)
      consider (lt) "key nn < key cn" | (gt) "key cn < key nn" | (eq) "key nn = key cn"
        by linarith
      then show ?thesis
      proof cases
        case lt
        have "slot_of h newnode (rb_insert_node_loop fuel h newnode (left cn) current) =
              locateInsertionPoint address_order fuel h (key nn) (left cn) (Attach current LeftSide)"
          by (rule Suc.IH) (simp add: Inr lt)
        moreover from lt have "address_order (key nn) (key cn) = LESS"
          by (simp add: address_order_def)
        ultimately show ?thesis using False nn Inr lt by simp
      next
        case gt
        have "slot_of h newnode (rb_insert_node_loop fuel h newnode (right cn) current) =
              locateInsertionPoint address_order fuel h (key nn) (right cn) (Attach current RightSide)"
          by (rule Suc.IH) (use gt in \<open>simp add: Inr\<close>)
        moreover from gt have "address_order (key nn) (key cn) = GREATER"
          by (simp add: address_order_def)
        ultimately show ?thesis using False nn Inr gt by simp
      next
        case eq
        then have "address_order (key nn) (key cn) = EQUAL"
          by (simp add: address_order_def)
        with eq False nn Inr show ?thesis by (simp add: slot_of_def)
      qed
    qed
  qed
qed

text \<open>
  \<open>insertion_point\<close> is where \<open>rb_insert_node\<close> links the node: the stores that
  follow the loop are fixed by it.
\<close>

lemma rb_insert_node_by_slot:
  "rb_insert_node fuel h root newnode =
     (case insertion_point fuel h root newnode of
        None \<Rightarrow> None
      | Some (Inl e) \<Rightarrow> Some (Inl e)
      | Some (Inr Existing) \<Rightarrow> Some (Inr h)
      | Some (Inr AtRoot) \<Rightarrow> Some (Inl InvalidDeref)
      | Some (Inr (Attach q sd)) \<Rightarrow>
          Some (case store_parent h newnode q of Inl e \<Rightarrow> Inl e | Inr h1 \<Rightarrow>
                case (case sd of LeftSide \<Rightarrow> store_left h1 q newnode
                               | RightSide \<Rightarrow> store_right h1 q newnode) of
                  Inl e \<Rightarrow> Inl e
                | Inr h2 \<Rightarrow> store_color h2 newnode RED))"
proof (cases "rb_insert_node_loop fuel h newnode root NULL")
  case None
  then show ?thesis by (simp add: rb_insert_node_def insertion_point_def slot_of_def)
next
  case (Some r)
  show ?thesis
  proof (cases r)
    case (Inl e)
    with Some show ?thesis by (simp add: rb_insert_node_def insertion_point_def slot_of_def)
  next
    case (Inr d)
    show ?thesis
    proof (cases d)
      case Returned
      with Some Inr show ?thesis by (simp add: rb_insert_node_def insertion_point_def slot_of_def)
    next
      case (Left_loop q)
      show ?thesis
      proof (cases "deref h newnode")
        case (Inl e)
        with Some Inr Left_loop show ?thesis
          by (simp add: rb_insert_node_def insertion_point_def slot_of_def store_parent_def)
      next
        case nn: (Inr nn)
        then have nz: "newnode \<noteq> NULL" by (auto simp: deref_def split: if_splits)
        define h1 where "h1 = h(newnode \<mapsto> nn\<lparr>parent := q\<rparr>)"
        have sp: "store_parent h newnode q = Inr h1" using nn by (simp add: store_parent_def h1_def)
        have d1: "deref h1 newnode = Inr (nn\<lparr>parent := q\<rparr>)" using nz by (simp add: deref_def h1_def)
        show ?thesis
        proof (cases "deref h q")
          case (Inl e)
          then have "deref h1 q = Inl e" using nn
            by (auto simp: deref_def h1_def split: if_splits option.splits)
          moreover have "e = InvalidDeref" by (cases e) (use Inl in \<open>auto simp: deref_def split: if_splits option.splits\<close>)
          ultimately show ?thesis using Some Inr Left_loop nn Inl sp d1
            by (simp add: rb_insert_node_def insertion_point_def slot_of_def)
        next
          case qn: (Inr qn)
          have "\<exists>qn1. deref h1 q = Inr qn1 \<and> key qn1 = key qn"
          proof (cases "q = newnode")
            case True
            with qn nn d1 show ?thesis by simp
          next
            case False
            with qn have "deref h1 q = Inr qn"
              by (auto simp: deref_def h1_def split: if_splits option.splits)
            then show ?thesis by simp
          qed
          then obtain qn1 where q1: "deref h1 q = Inr qn1" and kq: "key qn1 = key qn"
            by blast
          show ?thesis using Some Inr Left_loop nn qn sp d1 q1 kq
            by (simp add: rb_insert_node_def insertion_point_def slot_of_def)
        qed
      qed
    qed
  qed
qed

text \<open>The balancer, as far as it is written, changes nothing either.\<close>

lemma rb_rebalance_no_change:
  "rb_rebalance h node = Inr h' \<Longrightarrow> h' = h"
  by (auto simp: rb_rebalance_def rb_color_flip_def rb_rotate_def split: sum.splits if_splits)

section \<open>Insertion keeps the search tree\<close>

text \<open>
  Every call of \<open>insert_node\<close> with a valid key and a successful allocation takes
  a search tree in the store to a search tree in the store, with the key added.
  The empty store with a null root holds the empty tree, so every tree that the
  library builds is one of the trees the statements below are about.
\<close>

lemma insert_node_present_key:
  assumes t: "is_tree h NULL root t" and b: "bst t" and k: "k \<in> set (keys_of t)"
    and kn: "k \<noteq> NULL" and mn: "m \<noteq> NULL" and fresh: "h m = None" and fuel: "depth t < fuel"
  shows "\<exists>out. insert_node fuel m c0 h root k =
           Some (Inr (h(m \<mapsto> \<lparr>key = k, parent = NULL, left = NULL, right = NULL, color = c0\<rparr>), root, out))
         \<and> is_tree (h(m \<mapsto> \<lparr>key = k, parent = NULL, left = NULL, right = NULL, color = c0\<rparr>)) NULL root t"
proof -
  define nn where "nn = \<lparr>key = k, parent = NULL, left = NULL, right = NULL, color = c0\<rparr>"
  define h1 where "h1 = h(m \<mapsto> nn)"
  have c: "create_node m c0 k h = (m, h1)"
    using kn mn by (simp add: create_node_def h1_def nn_def)
  from k have rn: "root \<noteq> NULL" using t by (cases t) auto
  have t1: "is_tree h1 NULL root t"
    unfolding h1_def by (rule is_tree_fresh [OF t fresh])
  have d: "deref h1 m = Inr nn" using mn by (simp add: deref_def h1_def)
  have kk: "key nn = k" by (simp add: nn_def)
  from fuel have "depth t \<le> fuel" by simp
  from rb_insert_node_loop_finds [OF t1 b k d kk this]
  have "rb_insert_node fuel h1 root m = Some (Inr h1)"
    by (simp add: rb_insert_node_def)
  moreover from rb_validate_tree_returns [OF t1 fuel]
  obtain v where "rb_validate_tree fuel h1 root = Some (Inr (h1, v))" by blast
  ultimately have "insert_node fuel m c0 h root k = Some (Inr (h1, root, report v))"
    using c mn rn by (simp add: insert_node_def)
  with t1 show ?thesis unfolding h1_def nn_def by blast
qed


lemma is_tree_frame:
  "is_tree h par p t \<Longrightarrow> a \<notin> set (addrs t) \<Longrightarrow> is_tree (h(a := x)) par p t"
  by (induction t arbitrary: par p) auto

lemma is_tree_allocated:
  "is_tree h par p t \<Longrightarrow> a \<in> set (addrs t) \<Longrightarrow> h a \<noteq> None \<and> a \<noteq> NULL"
  by (induction t arbitrary: par p) auto

lemma is_tree_Leaf_iff: "is_tree h par p t \<Longrightarrow> (t = Leaf) = (p = NULL)"
  by (cases t) auto

lemma attach_point_mem:
  "t \<noteq> Leaf \<Longrightarrow> attach_point k q t \<in> set (addrs t)"
proof (induction t arbitrary: q)
  case Leaf
  then show ?case by simp
next
  case (Node l a n r)
  show ?case
    using Node.IH(1) [of a] Node.IH(2) [of a]
    by (cases "l = Leaf"; cases "r = Leaf") auto
qed

lemma attach_point_Node:
  "t \<noteq> Leaf \<Longrightarrow> attach_point k q t = attach_point k q' t"
  by (cases t) auto

lemma rb_insert_node_loop_attach:
  "is_tree h par p t \<Longrightarrow> k \<notin> set (keys_of t) \<Longrightarrow>
   deref h newnode = Inr nn \<Longrightarrow> key nn = k \<Longrightarrow> depth t < fuel \<Longrightarrow>
   rb_insert_node_loop fuel h newnode p par' = Some (Inr (Left_loop (attach_point k par' t)))"
proof (induction t arbitrary: fuel par p par')
  case Leaf
  then obtain f where "fuel = Suc f" by (cases fuel) auto
  with Leaf show ?case by simp
next
  case (Node l a n r)
  then obtain f where f: "fuel = Suc f" by (cases fuel) auto
  from Node.prems have pa: "p \<noteq> NULL" "p = a" and d: "deref h p = Inr n"
    and tl: "is_tree h a (left n) l" and tr: "is_tree h a (right n) r"
    by (simp_all add: deref_def)
  from Node.prems f have dl: "depth l < f" and dr: "depth r < f" by auto
  from Node.prems have kl: "k \<notin> set (keys_of l)" and kr: "k \<notin> set (keys_of r)"
    and kn: "k \<noteq> key n" by auto
  show ?case
  proof (cases "k < key n")
    case True
    from Node.IH(1) [OF tl kl Node.prems(3,4) dl, of p]
    show ?thesis using pa d True Node.prems(3,4) by (simp add: f)
  next
    case False
    with kn have gt: "key n < k" by simp
    from Node.IH(2) [OF tr kr Node.prems(3,4) dr, of p]
    show ?thesis using pa d gt False Node.prems(3,4) by (simp add: f)
  qed
qed

lemma is_tree_ins:
  assumes "is_tree h par p t" and "t \<noteq> Leaf" and "distinct (addrs t)"
    and "m \<notin> set (addrs t)" and "m \<noteq> NULL" and "k \<notin> set (keys_of t)"
    and "q = attach_point k par t" and "h q = Some qn"
  shows "is_tree
           (h(q \<mapsto> (if k < key qn then qn\<lparr>left := m\<rparr> else qn\<lparr>right := m\<rparr>),
              m \<mapsto> \<lparr>key = k, parent = q, left = NULL, right = NULL, color = RED\<rparr>))
           par p (ins m k par t)"
  using assms
proof (induction t arbitrary: par p)
  case Leaf
  then show ?case by simp
next
  case (Node l a n r)
  let ?h' = "h(q \<mapsto> (if k < key qn then qn\<lparr>left := m\<rparr> else qn\<lparr>right := m\<rparr>),
               m \<mapsto> \<lparr>key = k, parent = q, left = NULL, right = NULL, color = RED\<rparr>)"
  from Node.prems have pa: "p = a" "a \<noteq> NULL" and ha: "h a = Some n" and par: "parent n = par"
    and tl: "is_tree h a (left n) l" and tr: "is_tree h a (right n) r"
    by simp_all
  from Node.prems have dl: "distinct (addrs l)" and dr: "distinct (addrs r)"
    and al: "a \<notin> set (addrs l)" and ar: "a \<notin> set (addrs r)"
    and disj: "set (addrs l) \<inter> set (addrs r) = {}"
    and ml: "m \<notin> set (addrs l)" and mr: "m \<notin> set (addrs r)" and ma: "m \<noteq> a"
    and kl: "k \<notin> set (keys_of l)" and kr: "k \<notin> set (keys_of r)" and kn: "k \<noteq> key n"
    by auto
  show ?case
  proof (cases "k < key n")
    case True
    then have q: "q = attach_point k a l" using Node.prems(7) by simp
    show ?thesis
    proof (cases "l = Leaf")
      case True
      with q have qa: "q = a" by simp
      with ha Node.prems(8) have qn: "qn = n" by simp
      from True tl have ln: "left n = NULL" by simp
      have "is_tree ?h' a (right n) r"
        using tr ar mr qa by (simp add: is_tree_frame)
      moreover have "?h' a = Some (n\<lparr>left := m\<rparr>)"
        using \<open>k < key n\<close> ma qa qn by simp
      moreover have "?h' m = Some \<lparr>key = k, parent = a, left = NULL, right = NULL, color = RED\<rparr>"
        using qa by simp
      ultimately show ?thesis
        using \<open>k < key n\<close> True pa par Node.prems(5) by (simp del: fun_upd_apply)
    next
      case False
      then have qin: "q \<in> set (addrs l)" using q attach_point_mem by simp
      with al disj have qa: "q \<noteq> a" and qr: "q \<notin> set (addrs r)" by auto
      have "is_tree ?h' a (left n) (ins m k a l)"
        by (rule Node.IH(1) [OF tl False dl ml Node.prems(5) kl q Node.prems(8)])
      moreover have "is_tree ?h' a (right n) r"
        using tr mr qr by (simp add: is_tree_frame)
      moreover have "?h' a = Some n"
        using ma qa ha by simp
      ultimately show ?thesis
        using \<open>k < key n\<close> False pa par by (simp del: fun_upd_apply)
    qed
  next
    case False
    with kn have gt: "key n < k" by simp
    then have q: "q = attach_point k a r" using Node.prems(7) by simp
    show ?thesis
    proof (cases "r = Leaf")
      case True
      with q have qa: "q = a" by simp
      with ha Node.prems(8) have qn: "qn = n" by simp
      have "is_tree ?h' a (left n) l"
        using tl al ml qa by (simp add: is_tree_frame)
      moreover have "?h' a = Some (n\<lparr>right := m\<rparr>)"
        using gt ma qa qn by simp
      moreover have "?h' m = Some \<lparr>key = k, parent = a, left = NULL, right = NULL, color = RED\<rparr>"
        using qa by simp
      ultimately show ?thesis
        using gt True pa par Node.prems(5) by (simp del: fun_upd_apply)
    next
      case False
      then have qin: "q \<in> set (addrs r)" using q attach_point_mem by simp
      with ar disj have qa: "q \<noteq> a" and ql: "q \<notin> set (addrs l)" by auto
      have "is_tree ?h' a (right n) (ins m k a r)"
        by (rule Node.IH(2) [OF tr False dr mr Node.prems(5) kr q Node.prems(8)])
      moreover have "is_tree ?h' a (left n) l"
        using tl ml ql by (simp add: is_tree_frame)
      moreover have "?h' a = Some n"
        using ma qa ha by simp
      ultimately show ?thesis
        using gt False pa par by (simp del: fun_upd_apply)
    qed
  qed
qed

lemma keys_of_ins:
  "set (keys_of (ins m k q t)) = insert k (set (keys_of t))"
  by (induction t arbitrary: q) auto

lemma addrs_ins:
  "k \<notin> set (keys_of t) \<Longrightarrow> set (addrs (ins m k q t)) = insert m (set (addrs t))"
  by (induction t arbitrary: q) auto

lemma distinct_ins:
  "distinct (addrs t) \<Longrightarrow> m \<notin> set (addrs t) \<Longrightarrow> k \<notin> set (keys_of t) \<Longrightarrow>
   distinct (addrs (ins m k q t))"
  by (induction t arbitrary: q) (auto simp: addrs_ins)

lemma bst_ins:
  "bst t \<Longrightarrow> bst (ins m k q t)"
  by (induction t arbitrary: q) (auto simp: list_all_iff keys_of_ins)

lemma depth_ins: "depth (ins m k q t) \<le> Suc (depth t)"
proof (induction t arbitrary: q)
  case Leaf
  then show ?case by simp
next
  case (Node l a n r)
  show ?case
    using Node.IH(1) [of a] Node.IH(2) [of a] by (auto simp: max_def)
qed

lemma rb_insert_node_new_key:
  assumes t: "is_tree h NULL root t" and ne: "t \<noteq> Leaf" and dist: "distinct (addrs t)"
    and k: "k \<notin> set (keys_of t)" and mn: "m \<noteq> NULL" and fresh: "h m = None"
    and fuel: "depth t < fuel"
  shows "\<exists>h'. rb_insert_node fuel
                 (h(m \<mapsto> \<lparr>key = k, parent = NULL, left = NULL, right = NULL, color = c0\<rparr>)) root m =
               Some (Inr h') \<and>
             is_tree h' NULL root (ins m k NULL t) \<and>
             (\<forall>a. a \<notin> set (addrs (ins m k NULL t)) \<longrightarrow> h' a = h a)"
proof -
  define nn where "nn = \<lparr>key = k, parent = NULL, left = NULL, right = NULL, color = c0\<rparr>"
  define h1 where "h1 = h(m \<mapsto> nn)"
  define q where "q = attach_point k NULL t"
  have t1: "is_tree h1 NULL root t"
    unfolding h1_def by (rule is_tree_fresh [OF t fresh])
  have mt: "m \<notin> set (addrs t)"
    using is_tree_allocated [OF t, of m] fresh by auto
  have d: "deref h1 m = Inr nn" using mn by (simp add: deref_def h1_def)
  have kk: "key nn = k" by (simp add: nn_def)
  have loop: "rb_insert_node_loop fuel h1 m root NULL = Some (Inr (Left_loop q))"
    unfolding q_def by (rule rb_insert_node_loop_attach [OF t1 k d kk fuel])
  have qt: "q \<in> set (addrs t)"
    unfolding q_def by (rule attach_point_mem [OF ne])
  with mt have qm: "q \<noteq> m" by auto
  from is_tree_allocated [OF t qt] obtain qn where qn: "h q = Some qn" and q0: "q \<noteq> NULL"
    by auto
  define qn' where "qn' = (if k < key qn then qn\<lparr>left := m\<rparr> else qn\<lparr>right := m\<rparr>)"
  define h' where "h' = h(q \<mapsto> qn',
      m \<mapsto> \<lparr>key = k, parent = q, left = NULL, right = NULL, color = RED\<rparr>)"
  define h2 where "h2 = h1(m \<mapsto> nn\<lparr>parent := q\<rparr>)"
  have s1: "store_parent h1 m q = Inr h2"
    using d by (simp add: store_parent_def h2_def)
  have d2m: "deref h2 m = Inr (nn\<lparr>parent := q\<rparr>)"
    using mn by (simp add: deref_def h2_def)
  have d2q: "deref h2 q = Inr qn"
    using q0 qm qn by (simp add: deref_def h2_def h1_def)
  define h3 where "h3 = h2(q \<mapsto> qn')"
  have s2: "(if key (nn\<lparr>parent := q\<rparr>) < key qn then store_left h2 q m else store_right h2 q m) = Inr h3"
    using d2q by (simp add: store_left_def store_right_def h3_def qn'_def nn_def)
  have d3m: "deref h3 m = Inr (nn\<lparr>parent := q\<rparr>)"
    using mn qm by (simp add: deref_def h3_def h2_def)
  have h3': "h3(m \<mapsto> nn\<lparr>parent := q, color := RED\<rparr>) = h'"
    using qm by (auto simp: h3_def h2_def h1_def h'_def nn_def)
  have s3: "store_color h3 m RED = Inr h'"
    using d3m h3' by (simp add: store_color_def)
  have run: "rb_insert_node fuel h1 root m = Some (Inr h')"
    using loop s1 d2m d2q s2 s3 by (simp add: rb_insert_node_def)
  have tree: "is_tree h' NULL root (ins m k NULL t)"
    unfolding h'_def qn'_def
    by (rule is_tree_ins [OF t ne dist mt mn k q_def qn])
  have frame: "\<forall>a. a \<notin> set (addrs (ins m k NULL t)) \<longrightarrow> h' a = h a"
    using qt by (auto simp: addrs_ins [OF k] h'_def)
  from run tree frame show ?thesis
    unfolding h1_def nn_def by blast
qed

lemma insert_tree_props:
  assumes "bst t" and "distinct (addrs t)" and "m \<notin> set (addrs t)"
  shows "bst (insert_tree m k t)" and "distinct (addrs (insert_tree m k t))"
    and "set (keys_of (insert_tree m k t)) = insert k (set (keys_of t))"
    and "depth (insert_tree m k t) \<le> Suc (depth t)"
proof -
  show "bst (insert_tree m k t)"
    using assms(1) bst_ins [of t m k NULL] by (cases t) (simp_all add: insert_tree_def)
  show "distinct (addrs (insert_tree m k t))"
    using assms distinct_ins [of t m k NULL] by (cases t) (simp_all add: insert_tree_def)
  show "set (keys_of (insert_tree m k t)) = insert k (set (keys_of t))"
    using keys_of_ins [of m k NULL t] by (cases t) (auto simp: insert_tree_def)
  have "insert_tree m k t = t \<or> insert_tree m k t = ins m k NULL t \<or> t = Leaf"
    by (cases t) (simp_all add: insert_tree_def)
  then show "depth (insert_tree m k t) \<le> Suc (depth t)"
  proof (elim disjE)
    assume "insert_tree m k t = t"
    then show ?thesis by simp
  next
    assume "insert_tree m k t = ins m k NULL t"
    then show ?thesis using depth_ins [of m k NULL t] by simp
  next
    assume "t = Leaf"
    then show ?thesis by (simp add: insert_tree_def)
  qed
qed

lemma insert_node_keeps_search_tree:
  assumes t: "is_tree h NULL root t" and b: "bst t" and dist: "distinct (addrs t)"
    and kn: "k \<noteq> NULL" and mn: "m \<noteq> NULL" and fresh: "h m = None"
    and fuel: "Suc (depth t) < fuel"
  shows "\<exists>h' root' out. insert_node fuel m c0 h root k = Some (Inr (h', root', out)) \<and>
           is_tree h' NULL root' (insert_tree m k t) \<and>
           bst (insert_tree m k t) \<and> distinct (addrs (insert_tree m k t)) \<and>
           set (keys_of (insert_tree m k t)) = insert k (set (keys_of t))"
proof -
  have mt: "m \<notin> set (addrs t)"
    using is_tree_allocated [OF t, of m] fresh by auto
  note props = insert_tree_props [OF b dist mt, of k]
  have c: "create_node m c0 k h =
      (m, h(m \<mapsto> \<lparr>key = k, parent = NULL, left = NULL, right = NULL, color = c0\<rparr>))"
    using kn mn by (simp add: create_node_def)
  have "\<exists>h' root' out. insert_node fuel m c0 h root k = Some (Inr (h', root', out)) \<and>
           is_tree h' NULL root' (insert_tree m k t)"
  proof (cases t)
    case Leaf
    with t have r: "root = NULL" by simp
    have "insert_node fuel m c0 h root k =
        Some (Inr (h(m \<mapsto> \<lparr>key = k, parent = NULL, left = NULL, right = NULL, color = BLACK\<rparr>), m, []))"
      using c r mn by (simp add: insert_node_def store_color_def deref_def)
    moreover have "is_tree (h(m \<mapsto> \<lparr>key = k, parent = NULL, left = NULL, right = NULL, color = BLACK\<rparr>))
        NULL m (insert_tree m k t)"
      using Leaf mn by (simp add: insert_tree_def)
    ultimately show ?thesis by blast
  next
    case (Node l a n r)
    then have ne: "t \<noteq> Leaf" by simp
    with t have rn: "root \<noteq> NULL" by (cases t) auto
    show ?thesis
    proof (cases "k \<in> set (keys_of t)")
      case True
      from fuel have "depth t < fuel" by simp
      from insert_node_present_key [OF t b True kn mn fresh this, of c0]
      show ?thesis using True Node by (auto simp: insert_tree_def)
    next
      case False
      from fuel have f1: "depth t < fuel" by simp
      from rb_insert_node_new_key [OF t ne dist False mn fresh f1, of c0]
      obtain h' where run: "rb_insert_node fuel
          (h(m \<mapsto> \<lparr>key = k, parent = NULL, left = NULL, right = NULL, color = c0\<rparr>)) root m = Some (Inr h')"
        and tree: "is_tree h' NULL root (ins m k NULL t)" by blast
      have "depth (ins m k NULL t) < fuel"
        using depth_ins [of m k NULL t] fuel by simp
      from rb_validate_tree_returns [OF tree this]
      obtain v where "rb_validate_tree fuel h' root = Some (Inr (h', v))" by blast
      with c run mn rn have "insert_node fuel m c0 h root k = Some (Inr (h', root, report v))"
        by (simp add: insert_node_def)
      with tree show ?thesis using False Node by (auto simp: insert_tree_def)
    qed
  qed
  with props show ?thesis by blast
qed

section \<open>The claims\<close>

text \<open>
  C1. For every sequence of insertions into an initially empty tree, after each
  call to \<open>insert_node\<close> the tree satisfies the red-black invariants and the
  validator reports no violations.

  Evaluated on the insertions 10, 20, 30 (nodes allocated at 16, 32, 48):
  \<open>insert_node\<close> links each node as a plain search-tree leaf and never calls
  \<open>rb_rebalance\<close>. After the second call it prints that validation failed, and
  after the third the tree has a RED node with a RED child and the validator
  reports \<open>RB_RED_CHILD_OF_RED | RB_UNEQUAL_BLACK_PATHS\<close>.
\<close>

theorem insert_10_20_30_reports_violations:
  "insert_node 4 16 c1 Map.empty NULL 10 = Some (Inr (heap_10, 16, [])) \<and>
   insert_node 4 32 c2 heap_10 16 20 =
     Some (Inr (heap_10_20, 16,
       [''tree validation failed.'',
        ''- paths have different number of black nodes (violates property 5)''])) \<and>
   insert_node 4 48 c3 heap_10_20 16 30 =
     Some (Inr (heap_10_20_30, 16,
       [''tree validation failed.'',
        ''- found red node with red child (violates properties 4/7)'',
        ''- paths have different number of black nodes (violates property 5)''])) \<and>
   rb_validate_tree 4 heap_10_20_30 16 = Some (Inr (heap_10_20_30, 0x18)) \<and>
   is_tree heap_10_20_30 NULL 16 tree_10_20_30 \<and>
   red_red tree_10_20_30"
proof -
  have "report RB_UNEQUAL_BLACK_PATHS =
     [''tree validation failed.'',
      ''- paths have different number of black nodes (violates property 5)'']"
    by (simp add: report_def validate_defs)
  moreover have "RB_RED_CHILD_OF_RED OR RB_UNEQUAL_BLACK_PATHS = (0x18 :: rb_validation_t)"
    by (simp add: validate_defs)
  moreover have "red_red tree_10_20_30"
    by (simp add: tree_10_20_30_def RED_def)
  ultimately show ?thesis
    using insert_10 [of 4 c1] insert_20 [of c2] insert_30 [of c3] validate_10_20_30
      is_tree_10_20_30 report_failed
    by simp
qed

text \<open>
  C2. Inserting the keys 10, 20, 30 in that order into an empty tree produces a
  tree whose root holds 20 and is BLACK, whose children hold 10 and 30 and are RED.

  Evaluated: the root is the node that holds 10. It is BLACK and has no left
  child; its right child holds 20 and is RED; the right child of that node holds
  30 and is RED. The validator reports two violations on this tree.
\<close>

theorem insert_10_20_30_is_a_chain:
  "(case insert_node 4 16 c1 Map.empty NULL 10 of
      Some (Inr (h1, r1, out1)) \<Rightarrow>
        (case insert_node 4 32 c2 h1 r1 20 of
           Some (Inr (h2, r2, out2)) \<Rightarrow>
             (case insert_node 4 48 c3 h2 r2 30 of
                Some (Inr (h3, r3, out3)) \<Rightarrow>
                  r3 = 16 \<and>
                  h3 16 = Some \<lparr>key = 10, parent = NULL, left = NULL, right = 32, color = BLACK\<rparr> \<and>
                  h3 32 = Some \<lparr>key = 20, parent = 16, left = NULL, right = 48, color = RED\<rparr> \<and>
                  h3 48 = Some \<lparr>key = 30, parent = 32, left = NULL, right = NULL, color = RED\<rparr> \<and>
                  rb_validate_tree 4 h3 r3 =
                    Some (Inr (h3, RB_RED_CHILD_OF_RED OR RB_UNEQUAL_BLACK_PATHS))
              | _ \<Rightarrow> False)
         | _ \<Rightarrow> False)
    | _ \<Rightarrow> False)"
  by (simp add: insert_10 insert_20 insert_30 validate_10_20_30) (simp add: heap_10_20_30_def)

text \<open>
  C3. \<open>search\<close> finds a key exactly when it was inserted and not deleted afterwards.

  \<open>search\<close> has an empty body and the return type \<open>void\<close>: it hands no node
  back to its caller and leaves the store as it was, whatever the tree holds.
\<close>

theorem search_has_no_effect:
  "search h n query_key = h"
  by (simp add: search_def)

text \<open>
  C4. The validator sets the black-height-mismatch flag exactly when two
  root-to-leaf paths contain different numbers of BLACK nodes.

  Evaluated on the tree that is one BLACK node: both of its paths contain one
  BLACK node, \<open>rb_get_black_height\<close> stops before counting the last node of
  the left spine and returns 0, the walk decrements at the node, and the flag
  \<open>RB_UNEQUAL_BLACK_PATHS\<close> is set.
\<close>

theorem validate_flags_single_black_node:
  "is_tree heap_10 NULL 16 tree_10 \<and>
   path_blacks tree_10 = [1, 1] \<and>
   rb_get_black_height 2 heap_10 16 = Some (Inr 0) \<and>
   rb_validate_tree 2 heap_10 16 = Some (Inr (heap_10, RB_UNEQUAL_BLACK_PATHS))"
  using is_tree_10 validate_10
  by (simp add: tree_10_def BLACK_def rb_get_black_height_def deref_def heap_10_def
      eval_nat_numeral)

text \<open>
  C5. Every key comparison of the descent that locates the insertion point goes
  through the comparison function that the caller supplies.

  As stated this fails: \<open>rb_insert_node\<close> takes no comparison function. With a
  caller whose order is the descending one, the specified descent attaches 20 to
  the left of 10, and the code attaches it to the right.
\<close>

theorem insertion_point_ignores_caller_order:
  "insertion_point 2 heap_10_new20 16 32 \<noteq>
   locateInsertionPoint descending_order 2 heap_10_new20 20 16 AtRoot"
proof -
  have "descending_order 20 10 = LESS" by (simp add: descending_order_def)
  then have "locateInsertionPoint descending_order 2 heap_10_new20 20 16 AtRoot =
             Some (Inr (Attach 16 LeftSide))"
    by (simp add: deref_def heap_10_new20_def heap_10_def eval_nat_numeral)
  then show ?thesis by (simp add: insertion_point_20)
qed

text \<open>
  C5, amended. The descent of \<open>rb_insert_node\<close> compares keys with the built-in
  order of their addresses: for a non-empty tree and an allocated new node, the
  place it picks is the one that the specified descent picks under the address
  order, step for step (the same fuel gives the same outcome).
\<close>

theorem insertion_point_address_order:
  assumes "deref h newnode = Inr nn" and "root \<noteq> NULL"
  shows "insertion_point fuel h root newnode =
         locateInsertionPoint address_order fuel h (key nn) root AtRoot"
  unfolding insertion_point_def
  by (rule slot_of_loop [OF assms(1)]) (simp add: assms(2))

theorem insertion_point_address_order_witness:
  "locateInsertionPoint address_order 2 heap_10_new20 20 16 AtRoot =
   Some (Inr (Attach 16 RightSide))"
  using insertion_point_address_order [of heap_10_new20 32
      "\<lparr>key = 20, parent = NULL, left = NULL, right = NULL, color = 0\<rparr>" 16 2]
  by (simp add: insertion_point_20) (simp add: deref_def heap_10_new20_def)

text \<open>
  C6. Calling insert with a null key is rejected before any structural change and
  the error is returned to the caller as a recoverable error rather than
  terminating the program.

  As stated this fails: on the tree that holds 10, the call with a null key does
  not return; the assertion on the result of \<open>create_node\<close> aborts the program.
\<close>

theorem insert_null_key_not_returned:
  "insert_node 3 32 0 heap_10 16 NULL = Some (Inl AssertionFailed) \<and>
   \<not> (\<exists>r. insert_node 3 32 0 heap_10 16 NULL = Some (Inr r))"
  by (simp add: insert_node_def create_node_def)

text \<open>
  C6, amended. For every tree, a null key makes no structural change:
  \<open>create_node\<close> returns the null pointer without allocating, and the assertion
  in \<open>insert_node\<close> then terminates the program before any node is read or
  written.
\<close>

theorem insert_null_key_aborts:
  "create_node m c0 NULL h = (NULL, h) \<and>
   insert_node fuel m c0 h root NULL = Some (Inl AssertionFailed)"
  by (simp add: insert_node_def create_node_def)

text \<open>
  C7. For every tree and every key already present in it, insert with that key
  is a no-op and not an error: the call returns normally and the structure, keys
  and colours of the tree are unchanged.

  As stated this fails: \<open>insert_node\<close> allocates the new node and asserts on
  it before the descent meets the key. On the tree that holds 10 and 20, asked to
  insert 20 when \<open>malloc\<close> has no memory left (it returns \<open>NULL\<close>), the call
  does not return; the assertion aborts the program.
\<close>

theorem insert_duplicate_aborts_without_memory:
  "is_tree heap_10_20 NULL 16 tree_10_20 \<and> bst tree_10_20 \<and>
   20 \<in> set (keys_of tree_10_20) \<and>
   insert_node 3 NULL 0 heap_10_20 16 20 = Some (Inl AssertionFailed) \<and>
   \<not> (\<exists>r. insert_node 3 NULL 0 heap_10_20 16 20 = Some (Inr r))"
  using is_tree_10_20
  by (simp add: insert_node_def create_node_def tree_10_20_def)

text \<open>
  C7, amended. For every tree and every key already present in it, when the
  allocation of the new node succeeds, insert with that key returns normally and
  leaves the structure, keys and colours of the tree unchanged. The tree is a
  search tree in the store, the key is a valid (non-null) key and \<open>malloc\<close>
  hands out a fresh address \<open>m\<close>; the only change to the store is the node at
  \<open>m\<close>, which is allocated for the call and never linked into the tree.
\<close>

theorem insert_node_duplicate:
  assumes "is_tree h NULL root t" and "bst t" and "k \<in> set (keys_of t)"
    and "k \<noteq> NULL" and "m \<noteq> NULL" and "h m = None" and "depth t < fuel"
  shows "\<exists>out. insert_node fuel m c0 h root k =
           Some (Inr (h(m \<mapsto> \<lparr>key = k, parent = NULL, left = NULL, right = NULL, color = c0\<rparr>), root, out))
         \<and> is_tree (h(m \<mapsto> \<lparr>key = k, parent = NULL, left = NULL, right = NULL, color = c0\<rparr>)) NULL root t"
  using assms by (rule insert_node_present_key)

theorem insert_node_duplicate_witness:
  "\<exists>out. insert_node 3 48 0 heap_10_20 16 20 =
     Some (Inr (heap_10_20(48 \<mapsto> \<lparr>key = 20, parent = NULL, left = NULL, right = NULL, color = 0\<rparr>),
                16, out))"
  using insert_node_duplicate [of heap_10_20 16 tree_10_20 20 48 3 0] is_tree_10_20
  by (simp add: tree_10_20_def heap_10_20_def)

text \<open>
  C8. For every node \<open>z\<close> that has a parent and a grandparent,
  \<open>rb_get_uncle_color\<close> returns BLACK when the sibling \<open>u\<close> of the parent (the
  other child of the grandparent) is absent, and otherwise the colour stored in
  that sibling.
\<close>

theorem rb_get_uncle_color_sibling:
  assumes "deref h z = Inr zn" and "parent zn \<noteq> NULL"
    and "deref h (parent zn) = Inr pn" and "parent pn \<noteq> NULL"
    and "deref h (parent pn) = Inr gn"
    and "left gn = parent zn \<and> right gn = u \<or> right gn = parent zn \<and> left gn = u"
    and "u \<noteq> NULL \<Longrightarrow> deref h u = Inr un"
  shows "rb_get_uncle_color h z = Inr (if u = NULL then BLACK else color un)"
  using assms by (auto simp: rb_get_uncle_color_def Let_def)

theorem rb_get_uncle_color_sibling_witness:
  "rb_get_uncle_color heap_10_20_30 48 = Inr BLACK \<and>
   rb_get_uncle_color heap_20_10_30_5 64 = Inr RED"
proof
  show "rb_get_uncle_color heap_10_20_30 48 = Inr BLACK"
    using rb_get_uncle_color_sibling [of heap_10_20_30 48
        "\<lparr>key = 30, parent = 32, left = NULL, right = NULL, color = RED\<rparr>"
        "\<lparr>key = 20, parent = 16, left = NULL, right = 48, color = RED\<rparr>"
        "\<lparr>key = 10, parent = NULL, left = NULL, right = 32, color = BLACK\<rparr>" NULL undefined]
    by (simp add: deref_def heap_10_20_30_def)
  show "rb_get_uncle_color heap_20_10_30_5 64 = Inr RED"
    using rb_get_uncle_color_sibling [of heap_20_10_30_5 64
        "\<lparr>key = 5, parent = 32, left = NULL, right = NULL, color = RED\<rparr>"
        "\<lparr>key = 10, parent = 16, left = 64, right = NULL, color = RED\<rparr>"
        "\<lparr>key = 20, parent = NULL, left = 32, right = 48, color = BLACK\<rparr>" 48
        "\<lparr>key = 30, parent = 16, left = NULL, right = NULL, color = RED\<rparr>"]
    by (simp add: deref_def heap_20_10_30_5_def)
qed

text \<open>
  C9. Running the validator leaves the tree unchanged. On every store that holds
  a tree the validator returns, with the store it was given and a violation set;
  and on any store at all, a run that returns hands back the store it was given.
\<close>

theorem validate_leaves_store_unchanged:
  "(is_tree h NULL root t \<and> depth t < fuel \<longrightarrow>
      (\<exists>v. rb_validate_tree fuel h root = Some (Inr (h, v)))) \<and>
   (\<forall>h' v. rb_validate_tree fuel h root = Some (Inr (h', v)) \<longrightarrow> h' = h)"
  using rb_validate_tree_returns rb_validate_tree_mem by blast

theorem validate_leaves_store_unchanged_witness:
  "\<exists>v. rb_validate_tree 4 heap_10_20_30 16 = Some (Inr (heap_10_20_30, v))"
  using validate_leaves_store_unchanged [of heap_10_20_30 16 tree_10_20_30 4] is_tree_10_20_30
  by (simp add: tree_10_20_30_def)

text \<open>
  C10. For every tree and every key, present or not, \<open>delete_node\<close> leaves the
  tree unchanged: the store after the call is the store before it.
\<close>

theorem delete_node_no_change:
  "delete_node h root val = h"
  by (simp add: delete_node_def)


end
